theory Spec2Isabelle
  imports Complex_Main "HOL-Library.Multiset"
begin

section \<open>Double-precision values (\<open>typedef double fp_t\<close>)\<close>

text \<open>
  The program computes on \<open>double\<close>. The model keeps IEEE 754 binary64 as the platform
  has it: a value is NaN, an infinity with its sign, or a finite number with its sign bit
  (\<open>True\<close> is negative, so the two zeros are distinct) and the magnitude as a rational.
  Every arithmetic result is rounded to the nearest binary64 value, ties to even, with
  gradual underflow and overflow to infinity.
\<close>

datatype fp_t = FNaN | FInf bool | FNum bool rat

fun fp_val :: "fp_t \<Rightarrow> rat" where
  "fp_val (FNum s m) = (if s then - m else m)"
| "fp_val _ = 0"

fun fneg :: "fp_t \<Rightarrow> fp_t" where
  "fneg FNaN = FNaN"
| "fneg (FInf s) = FInf (\<not> s)"
| "fneg (FNum s m) = FNum (\<not> s) m"

text \<open>\<open>bitlen n\<close> is the number of binary digits of \<open>n\<close>.\<close>

function bitlen :: "int \<Rightarrow> int" where
  "bitlen n = (if n \<le> 0 then 0 else 1 + bitlen (n div 2))"
  by pat_completeness auto
termination
  by (relation "measure nat") auto

declare bitlen.simps [simp del]

definition pow2 :: "int \<Rightarrow> rat" where
  "pow2 e = (if 0 \<le> e then 2 ^ nat e else 1 / 2 ^ nat (- e))"

text \<open>For \<open>r > 0\<close>, \<open>ilog2 r\<close> is the exponent \<open>e\<close> with \<open>2^e \<le> r < 2^(e+1)\<close>.\<close>

definition ilog2 :: "rat \<Rightarrow> int" where
  "ilog2 r = (if 1 \<le> r then bitlen \<lfloor>r\<rfloor> - 1 else - bitlen (\<lceil>1 / r\<rceil> - 1))"

definition round_even :: "rat \<Rightarrow> int" where
  "round_even q =
     (if q - of_int \<lfloor>q\<rfloor> < 1 / 2 then \<lfloor>q\<rfloor>
      else if 1 / 2 < q - of_int \<lfloor>q\<rfloor> then \<lfloor>q\<rfloor> + 1
      else if even \<lfloor>q\<rfloor> then \<lfloor>q\<rfloor> else \<lfloor>q\<rfloor> + 1)"

text \<open>
  Rounding of an exact result to binary64. A magnitude \<open>a > 0\<close> with
  \<open>2^e \<le> a < 2^(e+1)\<close> lies on a grid of spacing \<open>2^(e-52)\<close> (53 significant
  bits); the exponent of a normal number is at least \<open>-1022\<close>, below it the spacing
  stays \<open>2^-1074\<close>. The magnitude is rounded to the nearest grid point, ties to the
  even one, and a rounded magnitude of \<open>2^1024\<close> or more is an infinity. An exact zero
  is given the sign \<open>+\<close> here; the operations below set the sign of a zero result
  themselves.
\<close>

definition ulp :: "rat \<Rightarrow> rat" where
  "ulp a = pow2 (max (ilog2 a) (- 1022) - 52)"

definition round_mag :: "rat \<Rightarrow> rat" where
  "round_mag a = of_int (round_even (a / ulp a)) * ulp a"

definition round_fp :: "rat \<Rightarrow> fp_t" where
  "round_fp r =
     (if r = 0 then FNum False 0
      else if 2 ^ 1024 \<le> round_mag \<bar>r\<bar> then FInf (r < 0)
      else FNum (r < 0) (round_mag \<bar>r\<bar>))"

fun fadd :: "fp_t \<Rightarrow> fp_t \<Rightarrow> fp_t" where
  "fadd FNaN _ = FNaN"
| "fadd _ FNaN = FNaN"
| "fadd (FInf s) (FInf t) = (if s = t then FInf s else FNaN)"
| "fadd (FInf s) (FNum _ _) = FInf s"
| "fadd (FNum _ _) (FInf t) = FInf t"
| "fadd (FNum s m) (FNum t n) =
     (if fp_val (FNum s m) + fp_val (FNum t n) = 0 then FNum (s \<and> t) 0
      else round_fp (fp_val (FNum s m) + fp_val (FNum t n)))"

definition fsub :: "fp_t \<Rightarrow> fp_t \<Rightarrow> fp_t" where
  "fsub a b = fadd a (fneg b)"

fun fmul :: "fp_t \<Rightarrow> fp_t \<Rightarrow> fp_t" where
  "fmul FNaN _ = FNaN"
| "fmul _ FNaN = FNaN"
| "fmul (FInf s) (FInf t) = FInf (s \<noteq> t)"
| "fmul (FInf s) (FNum t n) = (if n = 0 then FNaN else FInf (s \<noteq> t))"
| "fmul (FNum s m) (FInf t) = (if m = 0 then FNaN else FInf (s \<noteq> t))"
| "fmul (FNum s m) (FNum t n) =
     (if m * n = 0 then FNum (s \<noteq> t) 0
      else case round_fp (\<bar>m * n\<bar>) of
             FNum _ v \<Rightarrow> FNum (s \<noteq> t) v
           | FInf _ \<Rightarrow> FInf (s \<noteq> t)
           | FNaN \<Rightarrow> FNaN)"

fun fdiv :: "fp_t \<Rightarrow> fp_t \<Rightarrow> fp_t" where
  "fdiv FNaN _ = FNaN"
| "fdiv _ FNaN = FNaN"
| "fdiv (FInf s) (FInf t) = FNaN"
| "fdiv (FInf s) (FNum t n) = FInf (s \<noteq> t)"
| "fdiv (FNum s m) (FInf t) = FNum (s \<noteq> t) 0"
| "fdiv (FNum s m) (FNum t n) =
     (if n = 0 then (if m = 0 then FNaN else FInf (s \<noteq> t))
      else if m = 0 then FNum (s \<noteq> t) 0
      else case round_fp (\<bar>m / n\<bar>) of
             FNum _ v \<Rightarrow> FNum (s \<noteq> t) v
           | FInf _ \<Rightarrow> FInf (s \<noteq> t)
           | FNaN \<Rightarrow> FNaN)"

text \<open>\<open>a < b\<close> on doubles; every comparison with NaN is false, and \<open>-0 < +0\<close> is false.\<close>

fun fp_less :: "fp_t \<Rightarrow> fp_t \<Rightarrow> bool" where
  "fp_less FNaN _ = False"
| "fp_less _ FNaN = False"
| "fp_less (FInf s) (FInf t) = (s \<and> \<not> t)"
| "fp_less (FInf s) (FNum _ _) = s"
| "fp_less (FNum _ _) (FInf t) = (\<not> t)"
| "fp_less (FNum s m) (FNum t n) = (fp_val (FNum s m) < fp_val (FNum t n))"

text \<open>\<open>std::floor\<close> and \<open>std::ceil\<close>: the result keeps the sign bit of the argument.\<close>

fun ffloor :: "fp_t \<Rightarrow> fp_t" where
  "ffloor (FNum s m) = FNum s \<bar>of_int \<lfloor>fp_val (FNum s m)\<rfloor>\<bar>"
| "ffloor a = a"

fun fceil :: "fp_t \<Rightarrow> fp_t" where
  "fceil (FNum s m) = FNum s \<bar>of_int \<lceil>fp_val (FNum s m)\<rceil>\<bar>"
| "fceil a = a"

text \<open>
  Conversions. An integer literal (\<open>0\<close>, \<open>1\<close>, \<open>2\<close>) and a \<open>size_t\<close> become the nearest
  double. A double converted to \<open>size_t\<close> (the argument of \<open>at\<close>) is truncated towards
  zero; the conversion is undefined (\<open>None\<close>) when the truncated value does not fit
  64 bits, or for NaN and the infinities.
\<close>

definition fp_trunc :: "rat \<Rightarrow> int" where
  "fp_trunc v = (if 0 \<le> v then \<lfloor>v\<rfloor> else \<lceil>v\<rceil>)"

definition fp_of_nat :: "nat \<Rightarrow> fp_t" where
  "fp_of_nat n = round_fp (of_nat n)"

fun fp_to_size :: "fp_t \<Rightarrow> nat option" where
  "fp_to_size (FNum s m) =
     (if 0 \<le> fp_trunc (fp_val (FNum s m)) \<and> fp_trunc (fp_val (FNum s m)) < 2 ^ 64
      then Some (nat (fp_trunc (fp_val (FNum s m)))) else None)"
| "fp_to_size _ = None"

text \<open>\<open>size() - 1\<close> is computed in \<open>size_t\<close>: it wraps to \<open>2^64 - 1\<close> on an empty vector.\<close>

definition size_minus_1 :: "nat \<Rightarrow> nat" where
  "size_minus_1 n = (n + 2 ^ 64 - 1) mod 2 ^ 64"

section \<open>The Random Source (\<open>g_rng\<close>)\<close>

text \<open>
  \<open>std::mt19937 g_rng\<close> is a global engine, seeded once from \<open>std::random_device\<close>,
  and \<open>std::uniform_int_distribution<size_t> dist(0, b)\<close> turns its output into an index
  in \<open>[0, b]\<close>. Both belong to the standard library, and the algorithm of the
  distribution is implementation-defined. The model keeps what the library guarantees:
  the state of the source is the sequence of raw outputs still to come, and a draw with
  upper bound \<open>b\<close> consumes the next one and reduces it into \<open>[0, b]\<close>. Every sequence
  of in-range indices is the behaviour of some state.
\<close>

type_synonym rng = "nat \<Rightarrow> nat"

definition dist_draw :: "nat \<Rightarrow> rng \<Rightarrow> nat \<times> rng" where
  "dist_draw b g = (g 0 mod (b + 1), \<lambda>i. g (Suc i))"

section \<open>Errors\<close>

text \<open>
  \<open>AssertionFailure\<close> is a failed \<open>assert\<close> (the process aborts), \<open>OutOfRange\<close> the
  exception \<open>std::out_of_range\<close> of \<open>vector::at\<close> (never caught, so the process
  terminates), \<open>UndefinedBehaviour\<close> an access the language leaves undefined.
\<close>

datatype error = AssertionFailure | OutOfRange | UndefinedBehaviour

section \<open>\<open>average\<close>\<close>

fun average_loop :: "fp_t \<Rightarrow> fp_t list \<Rightarrow> fp_t" where
  "average_loop acc [] = acc"
| "average_loop acc (val # vals) = average_loop (fadd acc val) vals"

definition average :: "fp_t list \<Rightarrow> fp_t" where
  "average values = fdiv (average_loop (FNum False 0) values) (fp_of_nat (length values))"

section \<open>\<open>sample\<close>\<close>

text \<open>
  The loop of \<open>sample\<close>: \<open>k\<close> iterations remain, \<open>b\<close> is the upper bound of the
  distribution. \<open>values[i]\<close> is unchecked: an index past the end is undefined behaviour.
\<close>

fun sample_loop :: "fp_t list \<Rightarrow> nat \<Rightarrow> nat \<Rightarrow> fp_t list \<Rightarrow> rng \<Rightarrow> error + fp_t list \<times> rng" where
  "sample_loop values b 0 result g = Inr (result, g)"
| "sample_loop values b (Suc k) result g =
     (if fst (dist_draw b g) < length values
      then sample_loop values b k (result @ [values ! fst (dist_draw b g)]) (snd (dist_draw b g))
      else Inl UndefinedBehaviour)"

definition sample :: "fp_t list \<Rightarrow> nat \<Rightarrow> rng \<Rightarrow> error + fp_t list \<times> rng" where
  "sample values sampleSize g = sample_loop values (size_minus_1 (length values)) sampleSize [] g"

section \<open>\<open>getInterval\<close>\<close>

text \<open>The local variables \<open>lowerIndex\<close> and \<open>upperIndex\<close>, as functions of \<open>values.size()\<close>.\<close>

definition halfAlpha :: "fp_t \<Rightarrow> fp_t" where
  "halfAlpha alpha = fdiv alpha (FNum False 2)"

definition lowerIndex :: "nat \<Rightarrow> fp_t \<Rightarrow> fp_t" where
  "lowerIndex m alpha = fmul (fp_of_nat (size_minus_1 m)) (halfAlpha alpha)"

definition upperIndex :: "nat \<Rightarrow> fp_t \<Rightarrow> fp_t" where
  "upperIndex m alpha = fmul (fp_of_nat (size_minus_1 m)) (fsub (FNum False 1) (halfAlpha alpha))"

text \<open>
  \<open>values.at(i)\<close> throws \<open>std::out_of_range\<close> past the end. The order in which the two
  arguments of \<open>make_pair\<close> are evaluated is unspecified; the model does not depend on
  it: an undefined conversion of either index is undefined behaviour, and otherwise an
  index past the end throws whichever is evaluated first.
\<close>

definition getInterval :: "fp_t list \<Rightarrow> fp_t \<Rightarrow> error + fp_t \<times> fp_t" where
  "getInterval values alpha =
     (case (fp_to_size (ffloor (lowerIndex (length values) alpha)),
            fp_to_size (fceil (upperIndex (length values) alpha))) of
        (Some i, Some j) \<Rightarrow>
          if i < length values \<and> j < length values then Inr (values ! i, values ! j)
          else Inl OutOfRange
      | _ \<Rightarrow> Inl UndefinedBehaviour)"

section \<open>\<open>rejected\<close>\<close>

definition BOOTSTRAP_SAMPLES :: nat where
  "BOOTSTRAP_SAMPLES = 10000"

text \<open>\<open>0.01\<close> is the double nearest to \<open>1/100\<close>.\<close>

definition SIGNIFICANCE_ALPHA :: fp_t where
  "SIGNIFICANCE_ALPHA = round_fp (1 / 100)"

definition INITAL_SAMPLE_SIZE :: nat where
  "INITAL_SAMPLE_SIZE = 4"

definition MAX_SAMPLE_SIZE :: nat where
  "MAX_SAMPLE_SIZE = 60"

text \<open>
  \<open>std::sort\<close> with \<open>operator<\<close>. The comparison has to be a strict weak order on the
  elements. A NaN among them breaks that requirement (NaN is unordered with every
  element), and \<open>std::sort\<close> is then undefined. Without NaN the library promises a
  permutation free of inversions; the model is the insertion sort, which is one. Two
  elements that compare equal without being identical can only be the two zeros, and
  \<open>rejected\<close> only compares the elements it reads with zero.
\<close>

fun insort_fp :: "fp_t \<Rightarrow> fp_t list \<Rightarrow> fp_t list" where
  "insort_fp a [] = [a]"
| "insort_fp a (b # bs) = (if fp_less b a then b # insort_fp a bs else a # b # bs)"

definition insertion_sort :: "fp_t list \<Rightarrow> fp_t list" where
  "insertion_sort bs = foldr insort_fp bs []"

definition sort_fp :: "fp_t list \<Rightarrow> error + fp_t list" where
  "sort_fp bs = (if FNaN \<in> set bs then Inl UndefinedBehaviour else Inr (insertion_sort bs))"


text \<open>
  The loop of \<open>rejected\<close> (the Bootstrap Distribution Builder), \<open>k\<close> iterations remaining.
  \<open>sample\<close> takes an \<open>unsigned int\<close>, so \<open>x.size()\<close> is reduced modulo \<open>2^32\<close>.
\<close>

fun bootstrap_loop :: "fp_t list \<Rightarrow> fp_t list \<Rightarrow> nat \<Rightarrow> fp_t list \<Rightarrow> rng \<Rightarrow> error + fp_t list \<times> rng" where
  "bootstrap_loop x y 0 bootStrapped g = Inr (bootStrapped, g)"
| "bootstrap_loop x y (Suc k) bootStrapped g =
     (case sample x (length x mod 2 ^ 32) g of
        Inl e \<Rightarrow> Inl e
      | Inr (xSample, g1) \<Rightarrow>
          (case sample y (length y mod 2 ^ 32) g1 of
             Inl e \<Rightarrow> Inl e
           | Inr (ySample, g2) \<Rightarrow>
               bootstrap_loop x y k
                 (bootStrapped @ [fsub (average xSample) (average ySample)]) g2))"

definition rejected :: "fp_t list \<Rightarrow> fp_t list \<Rightarrow> rng \<Rightarrow> error + bool \<times> rng" where
  "rejected x y g =
     (case bootstrap_loop x y BOOTSTRAP_SAMPLES [] g of
        Inl e \<Rightarrow> Inl e
      | Inr (bootStrapped, g') \<Rightarrow>
          (case sort_fp bootStrapped of
             Inl e \<Rightarrow> Inl e
           | Inr ordered \<Rightarrow>
               (case getInterval ordered SIGNIFICANCE_ALPHA of
                  Inl e \<Rightarrow> Inl e
                | Inr (lo, hi) \<Rightarrow>
                    Inr (fp_less (FNum False 0) lo \<or> fp_less hi (FNum False 0), g'))))"

section \<open>\<open>parseInput\<close> and \<open>readSamples\<close>\<close>

text \<open>
  \<open>parseInput\<close> reads the count \<open>numValues\<close> from the first line that is not a comment and
  then runs \<open>fill\<close> twice; each of the \<open>numValues\<close> iterations of \<open>fill\<close> pushes what
  \<open>std::cin >> tmp\<close> left in \<open>tmp\<close>. The text of the stream is outside the model:
  \<open>tokens i\<close> is the value pushed by the \<open>i\<close>-th extraction.
\<close>

definition parseInput :: "nat \<Rightarrow> (nat \<Rightarrow> fp_t) \<Rightarrow> fp_t list \<times> fp_t list" where
  "parseInput numValues tokens =
     (map tokens [0 ..< numValues], map tokens [numValues ..< numValues + numValues])"

text \<open>
  The loop of \<open>readSamples\<close>; \<open>front\<close> and \<open>pop_front\<close> on an empty deque are undefined.
  The result is the pair of the returned vector and the deque that is left.
\<close>

fun readSamples_loop :: "fp_t list \<Rightarrow> nat \<Rightarrow> fp_t list \<Rightarrow> error + fp_t list \<times> fp_t list" where
  "readSamples_loop input 0 result = Inr (result, input)"
| "readSamples_loop [] (Suc k) result = Inl UndefinedBehaviour"
| "readSamples_loop (v # input) (Suc k) result = readSamples_loop input k (result @ [v])"

definition readSamples :: "fp_t list \<Rightarrow> nat \<Rightarrow> error + fp_t list \<times> fp_t list" where
  "readSamples input n =
     (if length input \<ge> n \<and> n \<noteq> 0 then readSamples_loop input n []
      else Inl AssertionFailure)"

section \<open>\<open>main\<close>: the Sequential Driver\<close>

text \<open>
  The variables of \<open>main\<close>: the two Groups \<open>x\<close> and \<open>y\<close>, the two backlogs
  \<open>samples.first\<close> and \<open>samples.second\<close>, the counter \<open>current\<close> and the global
  \<open>g_rng\<close>. \<open>tested\<close> is a ghost counter of the calls of \<open>rejected\<close>; the program has no
  such variable. \<open>current\<close> never exceeds 61, so its 32 bits do not matter.
\<close>

record driver =
  group_x :: "fp_t list"
  group_y :: "fp_t list"
  samples_first :: "fp_t list"
  samples_second :: "fp_t list"
  current :: nat
  g_rng :: rng
  tested :: nat

text \<open>The expression \<open>readSamples(input, 1).front()\<close>, with the deque that is left.\<close>

definition read_front :: "fp_t list \<Rightarrow> error + fp_t \<times> fp_t list" where
  "read_front input =
     (case readSamples input 1 of
        Inl e \<Rightarrow> Inl e
      | Inr (result, rest) \<Rightarrow>
          (case result of [] \<Rightarrow> Inl UndefinedBehaviour | v # _ \<Rightarrow> Inr (v, rest)))"

text \<open>
  One iteration of the \<open>while\<close> loop: \<open>Inl\<close> when the process ends in it (with the exit
  status, or the error that ends it), \<open>Inr\<close> with the state for the next iteration.
\<close>

definition loop_body :: "driver \<Rightarrow> ((error + nat) \<times> driver) + driver" where
  "loop_body s =
     (case rejected (group_x s) (group_y s) (g_rng s) of
        Inl e \<Rightarrow> Inl (Inl e, s\<lparr>tested := Suc (tested s)\<rparr>)
      | Inr (r, g') \<Rightarrow>
          let s1 = s\<lparr>g_rng := g', tested := Suc (tested s)\<rparr> in
          if r then Inl (Inr 1, s1)
          else (case read_front (samples_first s1) of
                  Inl e \<Rightarrow> Inl (Inl e, s1)
                | Inr (v, rest1) \<Rightarrow>
                    let s2 = s1\<lparr>samples_first := rest1, group_x := group_x s1 @ [v]\<rparr> in
                    (case read_front (samples_second s2) of
                       Inl e \<Rightarrow> Inl (Inl e, s2)
                     | Inr (w, rest2) \<Rightarrow>
                         Inr (s2\<lparr>samples_second := rest2, group_y := group_y s2 @ [w],
                                 current := current s2 + 1\<rparr>))))"

function main_loop :: "driver \<Rightarrow> (error + nat) \<times> driver" where
  "main_loop s =
     (if current s \<le> MAX_SAMPLE_SIZE
      then (case loop_body s of Inl r \<Rightarrow> r | Inr s' \<Rightarrow> main_loop s')
      else (Inr 0, s))"
  by pat_completeness auto
termination
  by (relation "measure (\<lambda>s. Suc MAX_SAMPLE_SIZE - current s)")
     (auto simp: loop_body_def Let_def split: sum.splits prod.splits if_splits)

declare main_loop.simps [simp del]

text \<open>\<open>main\<close> after \<open>parseInput\<close>: the assertion on the backlog, the initial batch, the loop.\<close>

definition main_body :: "fp_t list \<times> fp_t list \<Rightarrow> rng \<Rightarrow> (error + nat) \<times> driver" where
  "main_body samples g =
     (let s0 = \<lparr>group_x = [], group_y = [], samples_first = fst samples,
                samples_second = snd samples, current = INITAL_SAMPLE_SIZE, g_rng = g,
                tested = 0\<rparr>
      in if \<not> (length (fst samples) \<ge> INITAL_SAMPLE_SIZE \<and> length (fst samples) \<ge> MAX_SAMPLE_SIZE)
         then (Inl AssertionFailure, s0)
         else (case readSamples (samples_first s0) INITAL_SAMPLE_SIZE of
                 Inl e \<Rightarrow> (Inl e, s0)
               | Inr (x, rest1) \<Rightarrow>
                   let s1 = s0\<lparr>group_x := x, samples_first := rest1\<rparr> in
                   (case readSamples (samples_second s1) INITAL_SAMPLE_SIZE of
                      Inl e \<Rightarrow> (Inl e, s1)
                    | Inr (y, rest2) \<Rightarrow>
                        main_loop (s1\<lparr>group_y := y, samples_second := rest2\<rparr>))))"

text \<open>
  The process: \<open>g\<close> is the state of the Random Source after seeding, \<open>numValues\<close> and
  \<open>tokens\<close> are the input stream. The result is the exit status (or the error that ends
  the process) and the final values of the variables.
\<close>

definition main :: "nat \<Rightarrow> (nat \<Rightarrow> fp_t) \<Rightarrow> rng \<Rightarrow> (error + nat) \<times> driver" where
  "main numValues tokens g = main_body (parseInput numValues tokens) g"

section \<open>Facts about the rounding\<close>

lemma bitlen_unique: "2 ^ k \<le> n \<Longrightarrow> n < 2 ^ Suc k \<Longrightarrow> bitlen n = int k + 1"
proof (induction k arbitrary: n)
  case 0
  then have "n = 1" by simp
  then show ?case by (simp add: bitlen.simps)
next
  case (Suc k)
  have pos: "0 < n" using Suc.prems(1) by (smt (verit) zero_less_power)
  have "2 ^ k \<le> n div 2" using Suc.prems(1) by simp
  moreover have "n div 2 < 2 ^ Suc k" using Suc.prems(2) by simp
  ultimately have "bitlen (n div 2) = int k + 1" by (rule Suc.IH)
  then show ?case using pos by (subst bitlen.simps) simp
qed

lemma ilog2_eq:
  assumes "pow2 e \<le> r" and "r < pow2 (e + 1)"
  shows "ilog2 r = e"
proof (cases "0 \<le> e")
  case True
  define k where "k = nat e"
  have e: "e = int k" using True by (simp add: k_def)
  have lo: "(2::rat) ^ k \<le> r" using assms(1) by (simp add: e pow2_def)
  have hi: "r < 2 ^ Suc k" using assms(2) by (simp add: e pow2_def nat_add_distrib)
  have "1 \<le> r" using lo by (smt (verit) one_le_power order_trans one_le_numeral)
  have "(of_int (2 ^ k) :: rat) \<le> r" using lo by simp
  then have a: "2 ^ k \<le> \<lfloor>r\<rfloor>" by (simp only: le_floor_iff)
  have "r < of_int (2 ^ Suc k)" using hi by simp
  then have b: "\<lfloor>r\<rfloor> < 2 ^ Suc k" by (simp only: floor_less_iff)
  have "bitlen \<lfloor>r\<rfloor> = int k + 1" using a b by (rule bitlen_unique)
  then show ?thesis using \<open>1 \<le> r\<close> by (simp add: ilog2_def e)
next
  case False
  define k where "k = nat (- e) - 1"
  have e: "e = - int (Suc k)" using False by (simp add: k_def)
  have "nat (- e) = Suc k" using e by simp
  then have p1: "pow2 e = 1 / 2 ^ Suc k" using False by (simp only: pow2_def if_False)
  have p2: "pow2 (e + 1) = 1 / 2 ^ k"
  proof (cases "k = 0")
    case True
    then show ?thesis using e by (simp add: pow2_def)
  next
    case False
    then have "\<not> 0 \<le> e + 1" "nat (- (e + 1)) = k" using e by simp_all
    then show ?thesis by (simp only: pow2_def if_False)
  qed
  have lo: "1 / 2 ^ Suc k \<le> r" using assms(1) by (simp only: p1)
  have hi: "r < 1 / 2 ^ k" using assms(2) by (simp only: p2)
  have rpos: "0 < r" using lo by (smt (verit) divide_pos_pos zero_less_power zero_less_numeral zero_less_one order_less_le_trans)
  have "r < 1" using hi by (smt (verit) divide_le_eq_1_pos one_le_power zero_less_power one_le_numeral zero_less_numeral order_less_le_trans)
  have "1 / r \<le> 2 ^ Suc k" using lo rpos by (simp add: field_simps)
  then have "1 / r \<le> of_int (2 ^ Suc k)" by simp
  then have "\<lceil>1 / r\<rceil> \<le> 2 ^ Suc k" by (simp only: ceiling_le_iff)
  then have b: "\<lceil>1 / r\<rceil> - 1 < 2 ^ Suc k" by simp
  have "2 ^ k < 1 / r" using hi rpos by (simp add: field_simps)
  then have "of_int (2 ^ k) < 1 / r" by simp
  then have "2 ^ k < \<lceil>1 / r\<rceil>" by (simp only: less_ceiling_iff)
  then have a: "2 ^ k \<le> \<lceil>1 / r\<rceil> - 1" by simp
  have "bitlen (\<lceil>1 / r\<rceil> - 1) = int k + 1" using a b by (rule bitlen_unique)
  then show ?thesis using \<open>r < 1\<close> by (simp add: ilog2_def e)
qed

lemma round_mag_normal:
  assumes "pow2 e \<le> a" and "a < pow2 (e + 1)" and "- 1022 \<le> e"
  shows "round_mag a = of_int (round_even (a / pow2 (e - 52))) * pow2 (e - 52)"
  using assms(3) by (simp add: round_mag_def ulp_def ilog2_eq [OF assms(1,2)])

lemma round_even_of_int: "round_even (of_int z) = z"
  by (simp add: round_even_def)

lemma round_mag_of_nat:
  assumes "0 < n" and "n < 2 ^ 53"
  shows "round_mag (of_nat n) = of_nat n"
proof -
  from ex_power_ivl1 [of 2 n] assms(1)
  obtain k where k: "2 ^ k \<le> n" "n < 2 ^ (k + 1)" by auto
  have "(2::nat) ^ k < 2 ^ 53" using k(1) assms(2) by (rule le_less_trans)
  have "k < 53" by (rule power_less_imp_less_exp [of 2]) (use \<open>(2::nat) ^ k < 2 ^ 53\<close> in simp_all)
  then have k52: "k \<le> 52" by simp
  have lo: "pow2 (int k) \<le> of_nat n"
    using k(1) by (simp add: pow2_def)
  have "(of_nat n :: rat) < of_nat (2 ^ (k + 1))"
    using k(2) by (simp only: of_nat_less_iff)
  then have hi: "(of_nat n :: rat) < pow2 (int k + 1)"
    by (simp add: pow2_def nat_add_distrib)
  have u: "pow2 (int k - 52) = 1 / 2 ^ (52 - k)"
    using k52 by (cases "k = 52") (simp_all add: pow2_def nat_diff_distrib)
  have "(of_nat n :: rat) / pow2 (int k - 52) = of_int (int n * 2 ^ (52 - k))"
    by (simp add: u)
  then have "round_even (of_nat n / pow2 (int k - 52)) = int n * 2 ^ (52 - k)"
    by (simp only: round_even_of_int)
  then have "round_mag (of_nat n) = of_int (int n * 2 ^ (52 - k)) * (1 / 2 ^ (52 - k))"
    using round_mag_normal [OF lo hi] by (simp add: u)
  then show ?thesis by simp
qed

lemma round_fp_of_nat:
  assumes "n < 2 ^ 53"
  shows "round_fp (of_nat n) = FNum False (of_nat n)"
proof (cases "n = 0")
  case True
  then show ?thesis by (simp add: round_fp_def)
next
  case False
  then have m: "round_mag (of_nat n) = of_nat n"
    using assms by (simp add: round_mag_of_nat)
  have "(of_nat n :: rat) < 2 ^ 53"
    using assms by (metis of_nat_less_iff of_nat_numeral of_nat_power)
  also have "\<dots> < 2 ^ 1024" by simp
  finally have "\<not> (2 ^ 1024 \<le> (of_nat n :: rat))" by simp
  then show ?thesis using False by (simp add: round_fp_def m)
qed

lemma fp_of_nat_exact: "n < 2 ^ 53 \<Longrightarrow> fp_of_nat n = FNum False (of_nat n)"
  by (simp add: fp_of_nat_def round_fp_of_nat)

lemma fadd_of_nat:
  "a + b < 2 ^ 53 \<Longrightarrow>
   fadd (FNum False (of_nat a)) (FNum False (of_nat b)) = FNum False (of_nat (a + b))"
  using round_fp_of_nat [of "a + b"] by simp

lemma average_loop_const:
  "a + k * c < 2 ^ 53 \<Longrightarrow>
   average_loop (FNum False (of_nat a)) (replicate k (FNum False (of_nat c))) =
     FNum False (of_nat (a + k * c))"
proof (induction k arbitrary: a)
  case 0
  then show ?case by simp
next
  case (Suc k)
  have "a + c < 2 ^ 53" using Suc.prems by simp
  then have "fadd (FNum False (of_nat a)) (FNum False (of_nat c)) = FNum False (of_nat (a + c))"
    by (rule fadd_of_nat)
  moreover have "(a + c) + k * c < 2 ^ 53" using Suc.prems by (simp add: algebra_simps)
  ultimately show ?case using Suc.IH [of "a + c"] by (simp add: algebra_simps)
qed

lemma average_const:
  assumes "0 < k" and "k * c < 2 ^ 53" and "k < 2 ^ 53"
  shows "average (replicate k (FNum False (of_nat c))) = FNum False (of_nat c)"
proof -
  have s: "average_loop (FNum False 0) (replicate k (FNum False (of_nat c))) =
             FNum False (of_nat (k * c))"
    using average_loop_const [of 0 k c] assms(2) by simp
  have n: "fp_of_nat k = FNum False (of_nat k)"
    using assms(3) by (rule fp_of_nat_exact)
  have a: "average (replicate k (FNum False (of_nat c))) =
             fdiv (FNum False (of_nat (k * c))) (FNum False (of_nat k))"
    by (simp only: average_def s n length_replicate)
  show ?thesis
  proof (cases "c = 0")
    case True
    then show ?thesis unfolding a using assms(1) by simp
  next
    case False
    have "c \<le> k * c" using assms(1) by simp
    then have "c < 2 ^ 53" using assms(2) by (rule le_less_trans)
    then have "round_fp (of_nat c) = FNum False (of_nat c)" by (rule round_fp_of_nat)
    then show ?thesis unfolding a using assms(1) False by simp
  qed
qed

lemma floor_rat_numeral_div:
  "\<lfloor>(numeral a :: rat) / numeral b\<rfloor> = numeral a div numeral b"
  using floor_divide_of_int_eq [of "numeral a" "numeral b", where ?'a = rat] by simp

lemma ceiling_rat_numeral_div:
  "\<lceil>(numeral a :: rat) / numeral b\<rceil> = - ((- numeral a) div numeral b)"
  by (metis ceiling_def floor_divide_of_int_eq minus_divide_left of_int_minus of_int_numeral)

lemma round_fp_normal:
  assumes "r \<noteq> 0" and "pow2 e \<le> \<bar>r\<bar>" and "\<bar>r\<bar> < pow2 (e + 1)" and "- 1022 \<le> e"
    and "v = of_int (round_even (\<bar>r\<bar> / pow2 (e - 52))) * pow2 (e - 52)"
  shows "round_fp r = (if 2 ^ 1024 \<le> v then FInf (r < 0) else FNum (r < 0) v)"
  using assms(1) by (simp add: round_fp_def round_mag_normal [OF assms(2,3,4)] assms(5))

lemmas fp_num = pow2_def round_even_def floor_rat_numeral_div ceiling_rat_numeral_div

text \<open>
  Rounding is monotone: a magnitude below a representable bound \<open>N\<close> rounds to at most
  \<open>N\<close>. The exponent \<open>ilog2\<close> brackets its argument between two powers of two, the
  spacing of the grid at \<open>N\<close> is a multiple of the spacing at any smaller magnitude, and
  \<open>round_even\<close> never passes an integer above its argument.
\<close>

lemma pow2_powi: "pow2 e = 2 powi e"
  by (simp add: pow2_def power_int_def field_simps)

lemma pow2_pos: "0 < pow2 e"
  by (simp add: pow2_powi)

lemma pow2_mono: "a \<le> b \<Longrightarrow> pow2 a \<le> pow2 b"
  by (simp add: pow2_powi power_int_increasing)

lemma pow2_add: "pow2 (a + b) = pow2 a * pow2 b"
  by (simp add: pow2_powi power_int_add)

lemma bitlen_bounds:
  assumes "0 < n"
  shows "\<exists>k. bitlen n = int k + 1 \<and> 2 ^ k \<le> n \<and> n < 2 ^ Suc k"
proof -
  have "(2::nat) \<le> 2" "1 \<le> nat n" using assms by simp_all
  from ex_power_ivl1 [OF this]
  obtain k where kk: "2 ^ k \<le> nat n" "nat n < 2 ^ (k + 1)" by blast
  have "int (2 ^ k) \<le> int (nat n)" using kk(1) by (simp only: of_nat_le_iff)
  moreover have "int (nat n) < int (2 ^ (k + 1))" using kk(2) by (simp only: of_nat_less_iff)
  ultimately have k: "2 ^ k \<le> n" "n < 2 ^ Suc k"
    using assms by simp_all
  then have "bitlen n = int k + 1" by (rule bitlen_unique)
  then show ?thesis using k by blast
qed

lemma ilog2_bounds:
  assumes "0 < r"
  shows "pow2 (ilog2 r) \<le> r \<and> r < pow2 (ilog2 r + 1)"
proof (cases "1 \<le> r")
  case True
  then have "0 < \<lfloor>r\<rfloor>" by simp
  from bitlen_bounds [OF this]
  obtain k where k: "bitlen \<lfloor>r\<rfloor> = int k + 1" "2 ^ k \<le> \<lfloor>r\<rfloor>" "\<lfloor>r\<rfloor> < 2 ^ Suc k" by blast
  have e: "ilog2 r = int k" using True k(1) by (simp add: ilog2_def)
  have "of_int (2 ^ k) \<le> r" using k(2) by (simp only: le_floor_iff)
  moreover have "r < of_int (2 ^ Suc k)" using k(3) by (simp only: floor_less_iff)
  ultimately show ?thesis by (simp add: e pow2_def nat_add_distrib)
next
  case False
  then have r1: "r < 1" by simp
  then have "1 < 1 / r" using assms by simp
  then have "1 < \<lceil>1 / r\<rceil>" by (simp add: less_ceiling_iff)
  then have "0 < \<lceil>1 / r\<rceil> - 1" by simp
  from bitlen_bounds [OF this]
  obtain k where k: "bitlen (\<lceil>1 / r\<rceil> - 1) = int k + 1" "2 ^ k \<le> \<lceil>1 / r\<rceil> - 1"
    "\<lceil>1 / r\<rceil> - 1 < 2 ^ Suc k" by blast
  have e: "ilog2 r = - (int k + 1)" using r1 k(1) by (simp add: ilog2_def)
  have "2 ^ k < \<lceil>1 / r\<rceil>" using k(2) by simp
  then have "of_int (2 ^ k) < 1 / r" by (simp only: less_ceiling_iff)
  then have hi: "r < 1 / 2 ^ k" using assms by (simp add: field_simps)
  have "\<lceil>1 / r\<rceil> \<le> 2 ^ Suc k" using k(3) by simp
  then have "1 / r \<le> of_int (2 ^ Suc k)" by (simp only: ceiling_le_iff)
  then have lo: "1 / 2 ^ Suc k \<le> r" using assms by (simp add: field_simps)
  have p1: "pow2 (- (int k + 1)) = 1 / 2 ^ Suc k"
    by (simp add: pow2_def nat_add_distrib)
  have p2: "pow2 (- (int k + 1) + 1) = 1 / 2 ^ k"
    by (cases "k = 0") (simp_all add: pow2_def)
  show ?thesis using lo hi by (simp only: e p1 p2)
qed

lemma ilog2_mono:
  assumes "0 < a" and "a \<le> b"
  shows "ilog2 a \<le> ilog2 b"
proof (rule ccontr)
  assume "\<not> ilog2 a \<le> ilog2 b"
  then have "ilog2 b + 1 \<le> ilog2 a" by simp
  then have "pow2 (ilog2 b + 1) \<le> pow2 (ilog2 a)" by (rule pow2_mono)
  also have "\<dots> \<le> a" using ilog2_bounds [OF assms(1)] by simp
  also have "\<dots> \<le> b" by (rule assms(2))
  also have "\<dots> < pow2 (ilog2 b + 1)"
    using ilog2_bounds [of b] assms by simp
  finally show False by simp
qed

lemma round_even_le: "q \<le> of_int z \<Longrightarrow> round_even q \<le> z"
proof -
  assume q: "q \<le> of_int z"
  then have f: "\<lfloor>q\<rfloor> \<le> z" by (simp add: floor_le_iff)
  show ?thesis
  proof (cases "\<lfloor>q\<rfloor> = z")
    case True
    then have "q - of_int \<lfloor>q\<rfloor> \<le> 0" using q by simp
    then show ?thesis using True by (simp add: round_even_def)
  next
    case False
    then have "\<lfloor>q\<rfloor> + 1 \<le> z" using f by simp
    then show ?thesis by (simp add: round_even_def)
  qed
qed

lemma round_even_nonneg: "0 \<le> q \<Longrightarrow> 0 \<le> round_even q"
  by (simp add: round_even_def)

lemma ulp_pos: "0 < ulp a"
  by (simp add: ulp_def pow2_pos)

lemma round_mag_nonneg: "0 \<le> a \<Longrightarrow> 0 \<le> round_mag a"
  using ulp_pos [of a] by (simp add: round_mag_def round_even_nonneg)

lemma round_mag_le:
  assumes "0 < a" and "a \<le> N" and "round_mag N = N"
  shows "round_mag a \<le> N"
proof -
  define Ea where "Ea = max (ilog2 a) (- 1022)"
  define EN where "EN = max (ilog2 N) (- 1022)"
  define k where "k = nat (EN - Ea)"
  define z where "z = round_even (N / ulp N)"
  have "Ea \<le> EN"
    using ilog2_mono [OF assms(1,2)] by (simp add: Ea_def EN_def)
  then have "EN - 52 = (Ea - 52) + int k" by (simp add: k_def)
  then have "pow2 (EN - 52) = pow2 (Ea - 52) * pow2 (int k)"
    by (simp only: pow2_add)
  then have u: "ulp N = ulp a * 2 ^ k"
    by (simp add: ulp_def Ea_def EN_def pow2_def)
  have "N = of_int z * ulp N"
    using assms(3) by (simp add: round_mag_def z_def)
  then have N: "N = of_int (z * 2 ^ k) * ulp a"
    by (simp add: u)
  have "a / ulp a \<le> N / ulp a"
    using assms(2) ulp_pos [of a] by (simp add: divide_right_mono)
  also have "N / ulp a = of_int (z * 2 ^ k)"
    using ulp_pos [of a] by (subst N) simp
  finally have "round_even (a / ulp a) \<le> z * 2 ^ k" by (rule round_even_le)
  then have "(of_int (round_even (a / ulp a)) :: rat) \<le> of_int (z * 2 ^ k)"
    by (simp only: of_int_le_iff)
  then have "of_int (round_even (a / ulp a)) * ulp a \<le> of_int (z * 2 ^ k) * ulp a"
    using ulp_pos [of a] by (simp add: mult_right_mono)
  then show ?thesis unfolding round_mag_def using N by simp
qed

lemma round_fp_bounded:
  assumes "0 \<le> r" and "r \<le> N" and "round_mag N = N" and "N < 2 ^ 1024"
  shows "\<exists>v. round_fp r = FNum False v \<and> 0 \<le> v \<and> v \<le> N"
proof (cases "r = 0")
  case True
  then show ?thesis using assms(1,2) by (simp add: round_fp_def)
next
  case False
  then have r: "0 < r" using assms(1) by simp
  have "round_mag r \<le> N" using r assms(2,3) by (rule round_mag_le)
  moreover have "0 \<le> round_mag r" using assms(1) by (rule round_mag_nonneg)
  ultimately show ?thesis using r assms(4) by (simp add: round_fp_def)
qed

lemma round_mag_one: "round_mag 1 = 1"
  using round_mag_of_nat [of 1] by simp

lemma round_mag_of_nat0: "n < 2 ^ 53 \<Longrightarrow> round_mag (of_nat n) = of_nat n"
proof (cases "n = 0")
  case True
  then show ?thesis by (simp add: round_mag_def round_even_def)
next
  case False
  assume "n < 2 ^ 53"
  then show ?thesis using False by (simp add: round_mag_of_nat)
qed

section \<open>The Statistic Function\<close>

lemma average_loop_foldl: "average_loop acc values = foldl fadd acc values"
  by (induction "values" arbitrary: acc) simp_all

lemma round_fp_small:
  "round_fp 1 = FNum False 1" "round_fp 2 = FNum False 2" "round_fp 3 = FNum False 3"
  "round_fp 6 = FNum False 6"
  using round_fp_of_nat [of 1] round_fp_of_nat [of 2] round_fp_of_nat [of 3]
    round_fp_of_nat [of 6] by simp_all

text \<open>
  Claim C4, as amended. On an empty group \<open>average\<close> does not fail: it divides \<open>0.0\<close> by
  the count \<open>0\<close> and returns NaN, which is not a numeric value. On every non-empty group
  it returns the sum of the observations, accumulated from the left in double
  arithmetic, divided by their count.
\<close>

theorem average_spec:
  "average values =
     (if values = [] then FNaN
      else fdiv (foldl fadd (FNum False 0) values) (fp_of_nat (length values)))"
  by (simp add: average_def average_loop_foldl fp_of_nat_def round_fp_def)

theorem average_spec_witness:
  "average [FNum False 1, FNum False 2, FNum False 3] = FNum False 2"
  using average_spec [of "[FNum False 1, FNum False 2, FNum False 3]"]
  by (simp add: round_fp_small fp_of_nat_def)

text \<open>
  The claim as stated fails on the empty group: the call returns, and the caller goes on
  with the NaN.
\<close>

theorem average_empty_counterexample: "average [] = FNaN"
  by (simp add: average_def fp_of_nat_def round_fp_def)

section \<open>The acquisition pull operation\<close>

lemma readSamples_loop_eq:
  "k \<le> length input \<Longrightarrow>
   readSamples_loop input k result = Inr (result @ take k input, drop k input)"
proof (induction input k result rule: readSamples_loop.induct)
  case (1 input result)
  then show ?case by simp
next
  case (2 k result)
  then show ?case by simp
next
  case (3 v input k result)
  then show ?case by simp
qed

text \<open>
  Claim C10, as amended. \<open>readSamples\<close> removes and returns the next \<open>n\<close> observations
  of the backlog in arrival order and leaves the rest of the backlog as it was, in
  order. It succeeds exactly when \<open>n\<close> is not zero and at least \<open>n\<close> observations
  remain; otherwise its assertion fails.
\<close>

theorem readSamples_spec:
  "readSamples input n =
     (if n \<noteq> 0 \<and> n \<le> length input then Inr (take n input, drop n input)
      else Inl AssertionFailure)"
  by (simp add: readSamples_def readSamples_loop_eq)

theorem readSamples_spec_witness:
  "readSamples [FNum False 1, FNum False 2, FNum False 3] 2 =
     Inr ([FNum False 1, FNum False 2], [FNum False 3])"
  using readSamples_spec [of "[FNum False 1, FNum False 2, FNum False 3]" 2] by simp

text \<open>
  The claim as stated fails for \<open>n = 0\<close>: at least zero observations remain in every
  backlog, and the assertion \<open>n != 0\<close> still fails.
\<close>

theorem readSamples_zero_counterexample:
  "0 \<le> length [FNum False 1, FNum False 2] \<and>
   readSamples [FNum False 1, FNum False 2] 0 = Inl AssertionFailure"
  by (simp add: readSamples_def)

section \<open>The Resampler\<close>

lemma dist_draw_le: "fst (dist_draw b g) \<le> b"
  by (simp add: dist_draw_def)

lemma size_minus_1_less: "0 < n \<Longrightarrow> size_minus_1 n < n"
proof -
  assume "0 < n"
  then have "n + 2 ^ 64 - 1 = (n - 1) + 2 ^ 64" by simp
  then have "size_minus_1 n = ((n - 1) + 2 ^ 64) mod 2 ^ 64"
    by (simp only: size_minus_1_def)
  also have "\<dots> = (n - 1) mod 2 ^ 64"
    by (rule mod_add_self2)
  also have "\<dots> \<le> n - 1" by (rule mod_less_eq_dividend)
  finally show ?thesis using \<open>0 < n\<close> by simp
qed

lemma sample_loop_ok:
  "b < length values \<Longrightarrow>
   \<exists>drawn g'. sample_loop values b k result g = Inr (result @ drawn, g') \<and>
     length drawn = k \<and> set drawn \<subseteq> set values"
proof (induction k arbitrary: result g)
  case 0
  then show ?case by simp
next
  case (Suc k)
  let ?i = "fst (dist_draw b g)"
  have i: "?i < length values"
    using dist_draw_le [of b g] Suc.prems by simp
  from Suc.IH [OF Suc.prems, of "result @ [values ! ?i]" "snd (dist_draw b g)"]
  obtain drawn g' where
    d: "sample_loop values b k (result @ [values ! ?i]) (snd (dist_draw b g)) =
          Inr ((result @ [values ! ?i]) @ drawn, g')"
       "length drawn = k" "set drawn \<subseteq> set values"
    by blast
  have "sample_loop values b (Suc k) result g = Inr (result @ (values ! ?i # drawn), g')"
    using i d(1) by simp
  moreover have "length (values ! ?i # drawn) = Suc k"
    using d(2) by simp
  moreover have "set (values ! ?i # drawn) \<subseteq> set values"
    using d(3) i by simp
  ultimately show ?case by blast
qed

lemma sample_ok:
  assumes "v \<noteq> []"
  shows "\<exists>result g'. sample v n g = Inr (result, g') \<and> length result = n \<and> set result \<subseteq> set v"
proof -
  have "size_minus_1 (length v) < length v"
    using assms by (simp add: size_minus_1_less)
  from sample_loop_ok [OF this, of n "[]" g] show ?thesis
    by (simp add: sample_def)
qed

text \<open>
  Claim C8. For every non-empty group \<open>v\<close>, every \<open>n > 0\<close> and every state of the Random
  Source, \<open>sample v n\<close> returns (it does not fail), its result has exactly \<open>n\<close> elements,
  and each of them is a value present in \<open>v\<close>.
\<close>

theorem sample_spec:
  assumes "v \<noteq> []" and "0 < n"
  shows "\<exists>result g'. sample v n g = Inr (result, g') \<and> length result = n \<and> set result \<subseteq> set v"
  using sample_ok [OF assms(1)] by blast

theorem sample_spec_witness:
  "[FNum False 5, FNum False 7] \<noteq> [] \<and> (0::nat) < 3 \<and>
   (\<exists>result g'. sample [FNum False 5, FNum False 7] 3 (\<lambda>i. i) = Inr (result, g') \<and>
      length result = 3 \<and> set result \<subseteq> set [FNum False 5, FNum False 7])"
  using sample_spec [of "[FNum False 5, FNum False 7]" 3 "\<lambda>i. i"] by simp

section \<open>The Percentile Interval Estimator\<close>

lemma alpha_val:
  "SIGNIFICANCE_ALPHA = FNum False (5764607523034235 / 576460752303423488)"
  unfolding SIGNIFICANCE_ALPHA_def
  by (subst round_fp_normal [where e = "- 7" and v = "5764607523034235 / 576460752303423488"])
     (simp_all add: fp_num)

lemma halfAlpha_val:
  "halfAlpha SIGNIFICANCE_ALPHA = FNum False (5764607523034235 / 1152921504606846976)"
  unfolding halfAlpha_def alpha_val
  by (simp, subst round_fp_normal [where e = "- 8" and v = "5764607523034235 / 1152921504606846976"])
     (simp_all add: fp_num)

lemma lowerIndex_val:
  "lowerIndex 10000 SIGNIFICANCE_ALPHA = FNum False (439760670645289 / 8796093022208)"
proof -
  have "size_minus_1 10000 = 9999" by (simp add: size_minus_1_def)
  then have n: "fp_of_nat (size_minus_1 10000) = FNum False 9999"
    using fp_of_nat_exact [of 9999] by simp
  show ?thesis
    unfolding lowerIndex_def halfAlpha_val n
    by (simp, subst round_fp_normal [where e = 5 and v = "439760670645289 / 8796093022208"])
       (simp_all add: fp_num)
qed

lemma upperIndex_val:
  "upperIndex 10000 SIGNIFICANCE_ALPHA = FNum False (5469523341150781 / 549755813888)"
proof -
  have "size_minus_1 10000 = 9999" by (simp add: size_minus_1_def)
  then have n: "fp_of_nat (size_minus_1 10000) = FNum False 9999"
    using fp_of_nat_exact [of 9999] by simp
  have c: "fsub (FNum False 1) (FNum False (5764607523034235 / 1152921504606846976)) =
           FNum False (8962163258467287 / 9007199254740992)"
    unfolding fsub_def
    by (simp, subst round_fp_normal [where e = "- 1" and v = "8962163258467287 / 9007199254740992"])
       (simp_all add: fp_num)
  show ?thesis
    unfolding upperIndex_def halfAlpha_val n c
    by (simp, subst round_fp_normal [where e = 13 and v = "5469523341150781 / 549755813888"])
       (simp_all add: fp_num)
qed

lemma positions_10000:
  "fp_to_size (ffloor (lowerIndex 10000 SIGNIFICANCE_ALPHA)) = Some 49"
  "fp_to_size (fceil (upperIndex 10000 SIGNIFICANCE_ALPHA)) = Some 9950"
  unfolding lowerIndex_val upperIndex_val
  by (simp_all add: fp_trunc_def floor_rat_numeral_div ceiling_rat_numeral_div)

lemma getInterval_10000:
  assumes "length values = 10000"
  shows "getInterval values SIGNIFICANCE_ALPHA = Inr (values ! 49, values ! 9950)"
  by (simp add: getInterval_def assms positions_10000)

text \<open>
  Claim C7. For a replicate set of \<open>BOOTSTRAP_SAMPLES = 10000\<close> elements and
  \<open>alpha = 0.01\<close>, the conversion of both indices is defined, \<open>floor(lowerIndex)\<close> is
  49 (not negative), \<open>ceil(upperIndex)\<close> is 9950 (below 10000), and \<open>getInterval\<close>
  returns the two elements without an out-of-range access.
\<close>

theorem getInterval_in_bounds:
  "fp_to_size (ffloor (lowerIndex BOOTSTRAP_SAMPLES SIGNIFICANCE_ALPHA)) = Some 49 \<and>
   fp_to_size (fceil (upperIndex BOOTSTRAP_SAMPLES SIGNIFICANCE_ALPHA)) = Some 9950 \<and>
   (0::nat) \<le> 49 \<and> 9950 < BOOTSTRAP_SAMPLES \<and>
   (length values = BOOTSTRAP_SAMPLES \<longrightarrow>
      getInterval values SIGNIFICANCE_ALPHA = Inr (values ! 49, values ! 9950))"
  by (simp add: BOOTSTRAP_SAMPLES_def positions_10000 getInterval_10000)

theorem getInterval_in_bounds_witness:
  "length (map (\<lambda>i. FNum False (of_nat i)) [0 ..< 10000]) = BOOTSTRAP_SAMPLES \<and>
   getInterval (map (\<lambda>i. FNum False (of_nat i)) [0 ..< 10000]) SIGNIFICANCE_ALPHA =
     Inr (FNum False 49, FNum False 9950)"
  using getInterval_in_bounds [of "map (\<lambda>i. FNum False (of_nat i)) [0 ..< 10000]"]
  by (simp add: BOOTSTRAP_SAMPLES_def)

lemma positions_101:
  "fp_to_size (ffloor (lowerIndex 101 (round_fp (1 / 10)))) = Some 5"
  "fp_to_size (fceil (upperIndex 101 (round_fp (1 / 10)))) = Some 95"
proof -
  have a: "round_fp (1 / 10) = FNum False (3602879701896397 / 36028797018963968)"
    by (subst round_fp_normal [where e = "- 4" and v = "3602879701896397 / 36028797018963968"])
       (simp_all add: fp_num)
  have h: "halfAlpha (FNum False (3602879701896397 / 36028797018963968)) =
           FNum False (3602879701896397 / 72057594037927936)"
    unfolding halfAlpha_def
    by (simp, subst round_fp_normal [where e = "- 5" and v = "3602879701896397 / 72057594037927936"])
       (simp_all add: fp_num)
  have "size_minus_1 101 = 100" by (simp add: size_minus_1_def)
  then have n: "fp_of_nat (size_minus_1 101) = FNum False 100"
    using fp_of_nat_exact [of 100] by simp
  have lo: "lowerIndex 101 (round_fp (1 / 10)) = FNum False 5"
    unfolding lowerIndex_def a h n
    by (simp, subst round_fp_normal [where e = 2 and v = 5]) (simp_all add: fp_num)
  have c: "fsub (FNum False 1) (FNum False (3602879701896397 / 72057594037927936)) =
           FNum False (4278419646001971 / 4503599627370496)"
    unfolding fsub_def
    by (simp, subst round_fp_normal [where e = "- 1" and v = "4278419646001971 / 4503599627370496"])
       (simp_all add: fp_num)
  have hi: "upperIndex 101 (round_fp (1 / 10)) = FNum False 95"
    unfolding upperIndex_def a h n c
    by (simp, subst round_fp_normal [where e = 6 and v = 95]) (simp_all add: fp_num)
  show "fp_to_size (ffloor (lowerIndex 101 (round_fp (1 / 10)))) = Some 5"
    unfolding lo by (simp add: fp_trunc_def)
  show "fp_to_size (fceil (upperIndex 101 (round_fp (1 / 10)))) = Some 95"
    unfolding hi by (simp add: fp_trunc_def)
qed

lemma size_minus_1_pos: "0 < m \<Longrightarrow> m \<le> 2 ^ 64 \<Longrightarrow> size_minus_1 m = m - 1"
proof -
  assume "0 < m" and "m \<le> 2 ^ 64"
  then have "m + 2 ^ 64 - 1 = (m - 1) + 2 ^ 64" and "m - 1 < 2 ^ 64" by simp_all
  then show ?thesis by (simp only: size_minus_1_def mod_add_self2 mod_less)
qed

text \<open>
  The two products stay between \<open>0\<close> and \<open>m - 1\<close>: for \<open>0 \<le> alpha \<le> 2\<close> the
  factors \<open>alpha / 2\<close> and \<open>1 - alpha / 2\<close> round to values in \<open>[0, 1]\<close>, and
  \<open>m - 1\<close> is a double when \<open>m \<le> 2^53\<close>, so the rounded product cannot pass it.
\<close>

lemma halfAlpha_bounded:
  assumes "0 \<le> a" and "a \<le> 2"
  shows "\<exists>h. halfAlpha (FNum False a) = FNum False h \<and> 0 \<le> h \<and> h \<le> 1"
proof (cases "a = 0")
  case True
  then show ?thesis by (simp add: halfAlpha_def)
next
  case False
  from round_fp_bounded [of "a / 2" 1] assms
  obtain v where "round_fp (a / 2) = FNum False v" "0 \<le> v" "v \<le> 1"
    by (auto simp: round_mag_one)
  then show ?thesis using False assms(1) by (simp add: halfAlpha_def)
qed

lemma fmul_bounded:
  assumes "0 \<le> p" and "0 \<le> q" and "p * q \<le> N" and "round_mag N = N" and "N < 2 ^ 1024"
  shows "\<exists>w. fmul (FNum False p) (FNum False q) = FNum False w \<and> 0 \<le> w \<and> w \<le> N"
proof (cases "p * q = 0")
  case True
  then show ?thesis using assms(3) by auto
next
  case False
  have "0 \<le> p * q" using assms(1,2) by simp
  from round_fp_bounded [OF this assms(3,4,5)]
  obtain v where "round_fp (p * q) = FNum False v" "0 \<le> v" "v \<le> N" by blast
  then show ?thesis using False \<open>0 \<le> p * q\<close> by (simp del: mult_eq_0_iff)
qed

lemma one_minus_bounded:
  assumes "0 \<le> h" and "h \<le> 1"
  shows "\<exists>c. fsub (FNum False 1) (FNum False h) = FNum False c \<and> 0 \<le> c \<and> c \<le> 1"
proof (cases "h = 1")
  case True
  then show ?thesis by (simp add: fsub_def)
next
  case False
  then have "0 \<le> 1 - h" "1 - h \<le> 1" "1 - h \<noteq> 0" using assms by simp_all
  from round_fp_bounded [OF this(1,2) round_mag_one] this(3)
  show ?thesis by (auto simp: fsub_def)
qed

lemma fp_to_size_int:
  "0 \<le> z \<Longrightarrow> z < 2 ^ 64 \<Longrightarrow> fp_to_size (FNum False (of_int z)) = Some (nat z)"
  by (simp add: fp_trunc_def)

lemma positions_in_range:
  assumes "0 < m" and "m \<le> 2 ^ 53" and "0 \<le> a" and "a \<le> 2"
  shows "\<exists>i j. fp_to_size (ffloor (lowerIndex m (FNum False a))) = Some i \<and>
               fp_to_size (fceil (upperIndex m (FNum False a))) = Some j \<and> i < m \<and> j < m"
proof -
  define M where "M = m - 1"
  have M: "M < 2 ^ 53" "M < m" using assms(1,2) by (simp_all add: M_def)
  have "m \<le> 2 ^ 64" using assms(2) by (rule order_trans) simp
  then have "size_minus_1 m = M" using assms(1) by (simp add: size_minus_1_pos M_def)
  then have n: "fp_of_nat (size_minus_1 m) = FNum False (of_nat M)"
    using fp_of_nat_exact [OF M(1)] by simp
  have fx: "round_mag (of_nat M) = of_nat M" using M(1) by (rule round_mag_of_nat0)
  have "(of_nat M :: rat) < of_nat (2 ^ 53)" using M(1) by (simp only: of_nat_less_iff)
  then have big: "(of_nat M :: rat) < 2 ^ 1024" by simp
  have M64: "int M < 2 ^ 64" using M(1) by simp
  from halfAlpha_bounded [OF assms(3,4)]
  obtain h where h: "halfAlpha (FNum False a) = FNum False h" "0 \<le> h" "h \<le> 1" by blast
  have "of_nat M * h \<le> of_nat M * 1" using h(3) by (intro mult_left_mono) simp_all
  then have "of_nat M * h \<le> of_nat M" by simp
  from fmul_bounded [OF _ h(2) this fx big]
  obtain l where l: "lowerIndex m (FNum False a) = FNum False l" "0 \<le> l" "l \<le> of_nat M"
    by (auto simp: lowerIndex_def n h(1))
  have lf: "0 \<le> \<lfloor>l\<rfloor>" "\<lfloor>l\<rfloor> \<le> int M"
    using l(2,3) by (simp_all add: floor_le_iff)
  have l64: "\<lfloor>l\<rfloor> < 2 ^ 64" using lf(2) M64 by linarith
  have "ffloor (FNum False l) = FNum False (of_int \<lfloor>l\<rfloor>)"
    using l(2) by simp
  then have i: "fp_to_size (ffloor (lowerIndex m (FNum False a))) = Some (nat \<lfloor>l\<rfloor>)"
    using fp_to_size_int [OF lf(1) l64] by (simp only: l(1))
  from one_minus_bounded [OF h(2,3)]
  obtain c where c: "fsub (FNum False 1) (FNum False h) = FNum False c" "0 \<le> c" "c \<le> 1"
    by blast
  have "of_nat M * c \<le> of_nat M * 1" using c(3) by (intro mult_left_mono) simp_all
  then have "of_nat M * c \<le> of_nat M" by simp
  from fmul_bounded [OF _ c(2) this fx big]
  obtain w where w: "upperIndex m (FNum False a) = FNum False w" "0 \<le> w" "w \<le> of_nat M"
    by (auto simp: upperIndex_def n h(1) c(1))
  have wc: "0 \<le> \<lceil>w\<rceil>" "\<lceil>w\<rceil> \<le> int M"
    using w(2,3) by (simp_all add: ceiling_le_iff)
  have w64: "\<lceil>w\<rceil> < 2 ^ 64" using wc(2) M64 by linarith
  have "fceil (FNum False w) = FNum False (of_int \<lceil>w\<rceil>)"
    using wc(1) by simp
  then have j: "fp_to_size (fceil (upperIndex m (FNum False a))) = Some (nat \<lceil>w\<rceil>)"
    using fp_to_size_int [OF wc(1) w64] by (simp only: w(1))
  have "nat \<lfloor>l\<rfloor> < m" "nat \<lceil>w\<rceil> < m" using lf wc M(2) by simp_all
  then show ?thesis using i j by blast
qed

lemma getInterval_positions:
  assumes "fp_to_size (ffloor (lowerIndex (length values) alpha)) = Some i"
    and "fp_to_size (fceil (upperIndex (length values) alpha)) = Some j"
    and "i < length values" and "j < length values"
  shows "getInterval values alpha = Inr (values ! i, values ! j)"
  using assms by (simp add: getInterval_def)

text \<open>
  Claim C6, as amended. For every non-empty replicate set of \<open>m\<close> elements
  (\<open>m \<le> 2^53\<close>, so that \<open>m - 1\<close> is exact as a double) and every significance level
  \<open>alpha\<close> with \<open>0 \<le> alpha \<le> 2\<close>, \<open>lowerIndex\<close> is \<open>(m - 1) * (alpha / 2)\<close> and
  \<open>upperIndex\<close> is \<open>(m - 1) * (1 - alpha / 2)\<close>, in double arithmetic;
  \<open>floor(lowerIndex)\<close> and \<open>ceil(upperIndex)\<close> convert to positions of the set, and
  \<open>getInterval\<close> returns the pair of the elements at these two positions. For
  \<open>m = 101\<close> and \<open>alpha = 0.1\<close> the bounds are the elements at positions 5 and 95.
\<close>

theorem getInterval_spec:
  "(0 < length values \<and> length values \<le> 2 ^ 53 \<and> 0 \<le> a \<and> a \<le> 2 \<longrightarrow>
      lowerIndex (length values) (FNum False a) =
        fmul (fp_of_nat (length values - 1)) (fdiv (FNum False a) (FNum False 2)) \<and>
      upperIndex (length values) (FNum False a) =
        fmul (fp_of_nat (length values - 1))
          (fsub (FNum False 1) (fdiv (FNum False a) (FNum False 2))) \<and>
      (\<exists>i j. fp_to_size (ffloor (lowerIndex (length values) (FNum False a))) = Some i \<and>
             fp_to_size (fceil (upperIndex (length values) (FNum False a))) = Some j \<and>
             i < length values \<and> j < length values \<and>
             getInterval values (FNum False a) = Inr (values ! i, values ! j))) \<and>
   (length values = 101 \<longrightarrow>
      getInterval values (round_fp (1 / 10)) = Inr (values ! 5, values ! 95))"
proof (intro conjI impI)
  assume h: "0 < length values \<and> length values \<le> 2 ^ 53 \<and> 0 \<le> a \<and> a \<le> 2"
  then have "length values \<le> 2 ^ 53" by simp
  then have "length values \<le> 2 ^ 64" by (rule order_trans) simp
  with h have m: "size_minus_1 (length values) = length values - 1"
    by (simp add: size_minus_1_pos)
  show "lowerIndex (length values) (FNum False a) =
          fmul (fp_of_nat (length values - 1)) (fdiv (FNum False a) (FNum False 2))"
    by (simp only: lowerIndex_def halfAlpha_def m)
  show "upperIndex (length values) (FNum False a) =
          fmul (fp_of_nat (length values - 1))
            (fsub (FNum False 1) (fdiv (FNum False a) (FNum False 2)))"
    by (simp only: upperIndex_def halfAlpha_def m)
  from h positions_in_range [of "length values" a]
  obtain i j where
    "fp_to_size (ffloor (lowerIndex (length values) (FNum False a))) = Some i"
    "fp_to_size (fceil (upperIndex (length values) (FNum False a))) = Some j"
    "i < length values" "j < length values"
    by blast
  then show "\<exists>i j. fp_to_size (ffloor (lowerIndex (length values) (FNum False a))) = Some i \<and>
             fp_to_size (fceil (upperIndex (length values) (FNum False a))) = Some j \<and>
             i < length values \<and> j < length values \<and>
             getInterval values (FNum False a) = Inr (values ! i, values ! j)"
    using getInterval_positions by blast
next
  assume "length values = 101"
  then show "getInterval values (round_fp (1 / 10)) = Inr (values ! 5, values ! 95)"
    by (simp add: getInterval_def positions_101)
qed

theorem getInterval_spec_witness:
  "0 < length (map (\<lambda>i. FNum False (of_nat i)) [0 ..< 101]) \<and>
   length (map (\<lambda>i. FNum False (of_nat i)) [0 ..< 101]) \<le> 2 ^ 53 \<and>
   (0 :: rat) \<le> 1 / 2 \<and> (1 / 2 :: rat) \<le> 2 \<and>
   (\<exists>i < 101. \<exists>j < 101.
      getInterval (map (\<lambda>i. FNum False (of_nat i)) [0 ..< 101]) (FNum False (1 / 2)) =
        Inr (FNum False (of_nat i), FNum False (of_nat j))) \<and>
   getInterval (map (\<lambda>i. FNum False (of_nat i)) [0 ..< 101]) (round_fp (1 / 10)) =
     Inr (FNum False 5, FNum False 95)"
proof -
  let ?v = "map (\<lambda>i. FNum False (of_nat i)) [0 ..< 101]"
  have l: "length ?v = 101" by simp
  have b: "(101 :: nat) \<le> 2 ^ 53" by simp
  from getInterval_spec [of ?v "1 / 2"]
  have s: "(\<exists>i j. i < 101 \<and> j < 101 \<and>
              getInterval ?v (FNum False (1 / 2)) = Inr (?v ! i, ?v ! j))"
    and t: "getInterval ?v (round_fp (1 / 10)) = Inr (?v ! 5, ?v ! 95)"
    unfolding l using b by auto
  from s obtain i j where ij: "i < 101" "j < 101"
    "getInterval ?v (FNum False (1 / 2)) = Inr (?v ! i, ?v ! j)" by blast
  have "?v ! i = FNum False (of_nat i)" "?v ! j = FNum False (of_nat j)"
    using ij(1,2) by simp_all
  with ij have "\<exists>i < 101. \<exists>j < 101.
      getInterval ?v (FNum False (1 / 2)) = Inr (FNum False (of_nat i), FNum False (of_nat j))"
    by auto
  moreover have "?v ! 5 = FNum False 5" "?v ! 95 = FNum False 95" by simp_all
  ultimately show ?thesis using t l b by simp
qed

text \<open>
  The claim as stated fails for the empty replicate set: \<open>size() - 1\<close> wraps around to
  \<open>2^64 - 1\<close>, both indices are far past the end, and \<open>at\<close> throws instead of
  returning an element.
\<close>

theorem getInterval_empty_counterexample:
  "getInterval [] SIGNIFICANCE_ALPHA = Inl OutOfRange"
proof -
  have "size_minus_1 0 = 18446744073709551615" by (simp add: size_minus_1_def)
  then have n: "fp_of_nat (size_minus_1 0) = FNum False 18446744073709551616"
    unfolding fp_of_nat_def
    by (simp, subst round_fp_normal [where e = 63 and v = 18446744073709551616])
       (simp_all add: fp_num)
  have lo: "lowerIndex 0 SIGNIFICANCE_ALPHA = FNum False 92233720368547760"
    unfolding lowerIndex_def halfAlpha_val n
    by (simp, subst round_fp_normal [where e = 56 and v = 92233720368547760])
       (simp_all add: fp_num)
  have c: "fsub (FNum False 1) (FNum False (5764607523034235 / 1152921504606846976)) =
           FNum False (8962163258467287 / 9007199254740992)"
    unfolding fsub_def
    by (simp, subst round_fp_normal [where e = "- 1" and v = "8962163258467287 / 9007199254740992"])
       (simp_all add: fp_num)
  have hi: "upperIndex 0 SIGNIFICANCE_ALPHA = FNum False 18354510353341003776"
    unfolding upperIndex_def halfAlpha_val n c
    by (simp, subst round_fp_normal [where e = 63 and v = 18354510353341003776])
       (simp_all add: fp_num)
  show ?thesis
    unfolding getInterval_def by (simp add: lo hi fp_trunc_def)
qed

text \<open>
  The bounds on \<open>alpha\<close> and on \<open>m\<close> cannot be dropped. A negative \<open>alpha\<close> makes
  \<open>lowerIndex\<close> negative and an \<open>alpha\<close> well above 2 makes \<open>upperIndex\<close> negative:
  the conversion of a negative double to \<open>size_t\<close> is undefined in C++ (a compiled
  program may well produce a huge index there, on which \<open>at\<close> throws). Past \<open>2^53\<close>,
  \<open>m - 1\<close> may round up to \<open>m\<close> as a double, and a small \<open>alpha\<close> then puts
  \<open>upperIndex\<close> past the end.
\<close>

lemma getInterval_negative_alpha:
  assumes "length values = 101"
  shows "getInterval values (FNum True 2) = Inl UndefinedBehaviour"
proof -
  have "size_minus_1 101 = 100" by (simp add: size_minus_1_def)
  then have n: "fp_of_nat (size_minus_1 101) = FNum False 100"
    using fp_of_nat_exact [of 100] by simp
  have h: "halfAlpha (FNum True 2) = FNum True 1"
    unfolding halfAlpha_def using round_fp_of_nat [of 1] by simp
  have lo: "lowerIndex 101 (FNum True 2) = FNum True 100"
    unfolding lowerIndex_def h n using round_fp_of_nat [of 100] by simp
  have "fp_to_size (ffloor (lowerIndex 101 (FNum True 2))) = None"
    unfolding lo by (simp add: fp_trunc_def)
  then show ?thesis by (simp add: getInterval_def assms)
qed

lemma getInterval_large_alpha:
  assumes "length values = 101"
  shows "getInterval values (FNum False 4) = Inl UndefinedBehaviour"
proof -
  have "size_minus_1 101 = 100" by (simp add: size_minus_1_def)
  then have n: "fp_of_nat (size_minus_1 101) = FNum False 100"
    using fp_of_nat_exact [of 100] by simp
  have h: "halfAlpha (FNum False 4) = FNum False 2"
    unfolding halfAlpha_def using round_fp_of_nat [of 2] by simp
  have c: "fsub (FNum False 1) (FNum False 2) = FNum True 1"
    unfolding fsub_def using round_fp_of_nat [of 1] by (simp add: round_fp_def round_mag_one)
  have hi: "upperIndex 101 (FNum False 4) = FNum True 100"
    unfolding upperIndex_def h n c using round_fp_of_nat [of 100] by simp
  have "fp_to_size (fceil (upperIndex 101 (FNum False 4))) = None"
    unfolding hi by (simp add: fp_trunc_def)
  then show ?thesis by (simp add: getInterval_def assms split: option.split)
qed

lemma getInterval_huge_set:
  assumes "length values = 9007199254740996"
  shows "getInterval values (FNum False (1 / 2 ^ 60)) = Inl OutOfRange"
proof -
  have "size_minus_1 (9007199254740996) = 9007199254740995" by (simp add: size_minus_1_def)
  then have n: "fp_of_nat (size_minus_1 (9007199254740996)) = FNum False 9007199254740996"
    unfolding fp_of_nat_def
    by (simp, subst round_fp_normal [where e = 53 and v = 9007199254740996])
       (simp_all add: fp_num)
  have h: "halfAlpha (FNum False (1 / 2 ^ 60)) = FNum False (1 / 2 ^ 61)"
    unfolding halfAlpha_def
    by (simp, subst round_fp_normal [where e = "- 61" and v = "1 / 2 ^ 61"])
       (simp_all add: fp_num)
  have lo: "fmul (FNum False 9007199254740996) (FNum False (1 / 2 ^ 61)) =
            FNum False (2251799813685249 / 576460752303423488)"
    by (simp, subst round_fp_normal [where e = "- 8" and v = "2251799813685249 / 576460752303423488"])
       (simp_all add: fp_num)
  have c: "fsub (FNum False 1) (FNum False (1 / 2 ^ 61)) = FNum False 1"
    unfolding fsub_def
    by (simp, subst round_fp_normal [where e = "- 1" and v = 1]) (simp_all add: fp_num)
  have hi: "fmul (FNum False 9007199254740996) (FNum False 1) = FNum False 9007199254740996"
    by (simp, subst round_fp_normal [where e = 53 and v = 9007199254740996])
       (simp_all add: fp_num)
  have i: "fp_to_size (ffloor (lowerIndex (9007199254740996) (FNum False (1 / 2 ^ 60)))) = Some 0"
    unfolding lowerIndex_def n h lo by (simp add: fp_trunc_def floor_rat_numeral_div)
  have j: "fp_to_size (fceil (upperIndex (9007199254740996) (FNum False (1 / 2 ^ 60)))) =
           Some 9007199254740996"
    unfolding upperIndex_def n h c hi by (simp add: fp_trunc_def)
  show ?thesis unfolding getInterval_def assms i j by simp
qed

section \<open>The sorted Replicate Set\<close>






lemma fp_less_asym: "fp_less a b \<Longrightarrow> \<not> fp_less b a"
  by (cases a; cases b) (auto split: if_splits)




lemma insertion_sort_replicate: "insertion_sort (replicate k r) = replicate k r"
proof (induction k)
  case 0
  then show ?case by (simp add: insertion_sort_def)
next
  case (Suc k)
  have "\<not> fp_less r r" using fp_less_asym by blast
  then have "insort_fp r (replicate k r) = r # replicate k r"
    by (cases k) simp_all
  then show ?case using Suc by (simp add: insertion_sort_def)
qed

section \<open>The Hypothesis Tester\<close>


lemma getInterval_replicate:
  "getInterval (replicate BOOTSTRAP_SAMPLES r) SIGNIFICANCE_ALPHA = Inr (r, r)"
proof -
  have "getInterval (replicate 10000 r) SIGNIFICANCE_ALPHA =
          Inr (replicate 10000 r ! 49, replicate 10000 r ! 9950)"
    by (rule getInterval_10000) simp
  then show ?thesis
    by (simp add: BOOTSTRAP_SAMPLES_def)
qed

lemma sort_fp_replicate: "r \<noteq> FNaN \<Longrightarrow> sort_fp (replicate k r) = Inr (replicate k r)"
  by (simp add: sort_fp_def insertion_sort_replicate)

lemma rejected_replicate:
  assumes "bootstrap_loop x y BOOTSTRAP_SAMPLES [] g = Inr (replicate BOOTSTRAP_SAMPLES r, g')"
    and "r \<noteq> FNaN"
  shows "rejected x y g = Inr (fp_less (FNum False 0) r \<or> fp_less r (FNum False 0), g')"
  by (simp add: rejected_def assms(1) sort_fp_replicate [OF assms(2)] getInterval_replicate)

section \<open>Groups of equal observations\<close>

lemma sample_const:
  assumes "0 < n"
  shows "\<exists>g'. sample (replicate n c) k g = Inr (replicate k c, g')"
proof -
  have "replicate n c \<noteq> []" using assms by simp
  from sample_ok [OF this, of k g]
  obtain result g' where r: "sample (replicate n c) k g = Inr (result, g')"
    "length result = k" "set result \<subseteq> set (replicate n c)" by blast
  have "result = replicate k c"
    using r(2,3) by (intro replicate_eqI) auto
  then show ?thesis using r(1) by blast
qed

lemma bootstrap_loop_const:
  assumes "0 < n" "n < 2 ^ 32" "0 < m" "m < 2 ^ 32"
  shows "\<exists>g'. bootstrap_loop (replicate n c) (replicate m d) k acc g =
           Inr (acc @ replicate k (fsub (average (replicate n c)) (average (replicate m d))), g')"
proof (induction k arbitrary: acc g)
  case 0
  then show ?case by simp
next
  case (Suc k)
  let ?r = "fsub (average (replicate n c)) (average (replicate m d))"
  from sample_const [OF assms(1), of c n g]
  obtain g1 where xs: "sample (replicate n c) n g = Inr (replicate n c, g1)" by blast
  from sample_const [OF assms(3), of d m g1]
  obtain g2 where ys: "sample (replicate m d) m g1 = Inr (replicate m d, g2)" by blast
  from Suc.IH [of "acc @ [?r]" g2]
  obtain g' where
    "bootstrap_loop (replicate n c) (replicate m d) k (acc @ [?r]) g2 =
       Inr ((acc @ [?r]) @ replicate k ?r, g')" by blast
  then have "bootstrap_loop (replicate n c) (replicate m d) (Suc k) acc g =
               Inr (acc @ replicate (Suc k) ?r, g')"
    using xs ys assms(2,4) by (simp add: replicate_app_Cons_same)
  then show ?case by blast
qed

lemma rejected_const:
  assumes "0 < n" "n < 2 ^ 32" "0 < m" "m < 2 ^ 32"
    and "r = fsub (average (replicate n c)) (average (replicate m d))" and "r \<noteq> FNaN"
  shows "\<exists>g'. rejected (replicate n c) (replicate m d) g =
           Inr (fp_less (FNum False 0) r \<or> fp_less r (FNum False 0), g')"
proof -
  from bootstrap_loop_const [OF assms(1-4), of c d BOOTSTRAP_SAMPLES "[]" g]
  obtain g' where "bootstrap_loop (replicate n c) (replicate m d) BOOTSTRAP_SAMPLES [] g =
                     Inr (replicate BOOTSTRAP_SAMPLES r, g')"
    using assms(5) by auto
  then have "rejected (replicate n c) (replicate m d) g =
               Inr (fp_less (FNum False 0) r \<or> fp_less r (FNum False 0), g')"
    using assms(6) by (rule rejected_replicate)
  then show ?thesis by blast
qed

lemma average_ten:
  assumes "0 < n" and "n \<le> 61"
  shows "average (replicate n (FNum False 10)) = FNum False 10"
  using average_const [of n 10] assms by simp

lemma rejected_ten:
  assumes "0 < n" and "n \<le> 61"
  shows "\<exists>g'. rejected (replicate n (FNum False 10)) (replicate n (FNum False 10)) g =
           Inr (False, g')"
proof -
  have "fsub (average (replicate n (FNum False 10))) (average (replicate n (FNum False 10))) =
          FNum False 0"
    by (simp add: average_ten [OF assms] fsub_def)
  from rejected_const [OF _ _ _ _ this [symmetric], of g] assms
  show ?thesis by simp
qed

section \<open>The verdict\<close>



section \<open>The Sequential Driver\<close>

lemma read_front_Nil: "read_front [] = Inl AssertionFailure"
  by (simp add: read_front_def readSamples_def)

lemma read_front_Cons: "read_front (v # rest) = Inr (v, rest)"
  by (simp add: read_front_def readSamples_def readSamples_loop_eq)

lemma main_loop_ten:
  assumes "current s = c" and "0 < c" and "c + d = 61"
    and "group_x s = replicate c (FNum False 10)" and "group_y s = replicate c (FNum False 10)"
    and "samples_first s = replicate k (FNum False 10)"
    and "samples_second s = replicate k (FNum False 10)"
  shows "fst (main_loop s) = (if d \<le> k then Inr 0 else Inl AssertionFailure) \<and>
         group_x (snd (main_loop s)) = replicate (c + min d k) (FNum False 10) \<and>
         group_y (snd (main_loop s)) = replicate (c + min d k) (FNum False 10) \<and>
         current (snd (main_loop s)) = c + min d k \<and>
         tested (snd (main_loop s)) = tested s + min d (Suc k)"
  using assms
proof (induction d arbitrary: s c k)
  case 0
  then have "\<not> current s \<le> MAX_SAMPLE_SIZE" by (simp add: MAX_SAMPLE_SIZE_def)
  then have "main_loop s = (Inr 0, s)" by (subst main_loop.simps) simp
  then show ?case using 0 by simp
next
  case (Suc d)
  have c: "current s \<le> MAX_SAMPLE_SIZE" "c \<le> 61"
    using Suc.prems(1,3) by (simp_all add: MAX_SAMPLE_SIZE_def)
  from rejected_ten [OF Suc.prems(2) c(2), of "g_rng s"]
  obtain g' where r: "rejected (group_x s) (group_y s) (g_rng s) = Inr (False, g')"
    using Suc.prems(4,5) by auto
  define s1 where "s1 = s\<lparr>g_rng := g', tested := Suc (tested s)\<rparr>"
  show ?case
  proof (cases k)
    case 0
    have "loop_body s = Inl (Inl AssertionFailure, s1)"
      using Suc.prems(6) 0 by (simp add: loop_body_def r s1_def read_front_Nil)
    then have "main_loop s = (Inl AssertionFailure, s1)"
      using c(1) by (subst main_loop.simps) simp
    then show ?thesis using 0 Suc.prems by (simp add: s1_def)
  next
    case (Suc k')
    define s3 where "s3 = s1\<lparr>samples_first := replicate k' (FNum False 10),
      group_x := group_x s @ [FNum False 10],
      samples_second := replicate k' (FNum False 10),
      group_y := group_y s @ [FNum False 10], current := current s + 1\<rparr>"
    have "loop_body s = Inr s3"
      using Suc.prems(6,7) Suc
      by (simp add: loop_body_def r s1_def s3_def read_front_Cons Let_def)
    then have m: "main_loop s = main_loop s3"
      using c(1) by (subst main_loop.simps) simp
    have "fst (main_loop s3) = (if d \<le> k' then Inr 0 else Inl AssertionFailure) \<and>
         group_x (snd (main_loop s3)) = replicate (Suc c + min d k') (FNum False 10) \<and>
         group_y (snd (main_loop s3)) = replicate (Suc c + min d k') (FNum False 10) \<and>
         current (snd (main_loop s3)) = Suc c + min d k' \<and>
         tested (snd (main_loop s3)) = tested s3 + min d (Suc k')"
      using Suc.prems
      by (intro Suc.IH) (simp_all add: s3_def s1_def replicate_append_same)
    then show ?thesis using Suc by (simp add: m s3_def s1_def)
  qed
qed

lemma parseInput_const:
  "parseInput n (\<lambda>i. c) = (replicate n c, replicate n c)"
  by (simp add: parseInput_def map_replicate_const)

lemma main_ten:
  assumes "60 \<le> n"
  shows "fst (main n (\<lambda>i. FNum False 10) g) = (if 61 \<le> n then Inr 0 else Inl AssertionFailure) \<and>
         group_x (snd (main n (\<lambda>i. FNum False 10) g)) = replicate (min 61 n) (FNum False 10) \<and>
         group_y (snd (main n (\<lambda>i. FNum False 10) g)) = replicate (min 61 n) (FNum False 10) \<and>
         current (snd (main n (\<lambda>i. FNum False 10) g)) = min 61 n \<and>
         tested (snd (main n (\<lambda>i. FNum False 10) g)) = min 57 (n - 3)"
proof -
  define s where "s = \<lparr>group_x = replicate 4 (FNum False 10), group_y = replicate 4 (FNum False 10),
     samples_first = replicate (n - 4) (FNum False 10),
     samples_second = replicate (n - 4) (FNum False 10), current = 4, g_rng = g, tested = 0\<rparr>"
  have t: "take 4 (replicate n (FNum False 10)) = replicate 4 (FNum False 10)"
    using assms by simp
  have "main n (\<lambda>i. FNum False 10) g = main_loop s"
    using assms
    by (simp add: main_def parseInput_const main_body_def Let_def INITAL_SAMPLE_SIZE_def
        MAX_SAMPLE_SIZE_def readSamples_def readSamples_loop_eq t s_def)
  moreover have "fst (main_loop s) = (if 57 \<le> n - 4 then Inr 0 else Inl AssertionFailure) \<and>
         group_x (snd (main_loop s)) = replicate (4 + min 57 (n - 4)) (FNum False 10) \<and>
         group_y (snd (main_loop s)) = replicate (4 + min 57 (n - 4)) (FNum False 10) \<and>
         current (snd (main_loop s)) = 4 + min 57 (n - 4) \<and>
         tested (snd (main_loop s)) = tested s + min 57 (Suc (n - 4))"
    by (rule main_loop_ten) (simp_all add: s_def)
  ultimately show ?thesis using assms by (auto simp: s_def min_def)
qed

lemma read_front_Inr:
  "read_front input = Inr (v, rest) \<Longrightarrow> length input = Suc (length rest)"
  by (cases input) (auto simp: read_front_Nil read_front_Cons)

lemma loop_body_Inl: "loop_body s = Inl r \<Longrightarrow> fst r \<noteq> Inr 0"
  by (auto simp: loop_body_def Let_def split: sum.splits prod.splits if_splits)

lemma loop_body_Inr:
  assumes "loop_body s = Inr s'"
  shows "current s' = current s + 1 \<and> length (samples_first s) = Suc (length (samples_first s'))"
  using assms
  by (auto simp: loop_body_def Let_def split: sum.splits prod.splits if_splits
      dest: read_front_Inr)

lemma main_loop_short:
  "current s + d = 61 \<Longrightarrow> length (samples_first s) < d \<Longrightarrow> fst (main_loop s) \<noteq> Inr 0"
proof (induction d arbitrary: s)
  case 0
  then show ?case by simp
next
  case (Suc d)
  have c: "current s \<le> MAX_SAMPLE_SIZE"
    using Suc.prems(1) by (simp add: MAX_SAMPLE_SIZE_def)
  show ?case
  proof (cases "loop_body s")
    case (Inl r)
    then have "main_loop s = r" using c by (subst main_loop.simps) simp
    then show ?thesis using loop_body_Inl [OF Inl] by simp
  next
    case (Inr s')
    then have m: "main_loop s = main_loop s'" using c by (subst main_loop.simps) simp
    from loop_body_Inr [OF Inr] Suc.prems
    have "current s' + d = 61" "length (samples_first s') < d" by simp_all
    then show ?thesis unfolding m by (rule Suc.IH)
  qed
qed

lemma length_parseInput:
  "length (fst (parseInput n tokens)) = n" "length (snd (parseInput n tokens)) = n"
  by (simp_all add: parseInput_def)

lemma main_60_not_exhausted: "fst (main 60 tokens g) \<noteq> Inr 0"
proof -
  obtain reference candidate where p: "parseInput 60 tokens = (reference, candidate)"
    by (cases "parseInput 60 tokens")
  have l: "length reference = 60" "length candidate = 60"
    using length_parseInput [of 60 tokens] by (simp_all add: p)
  define s where "s = \<lparr>group_x = take 4 reference, group_y = take 4 candidate,
     samples_first = drop 4 reference, samples_second = drop 4 candidate,
     current = 4, g_rng = g, tested = 0\<rparr>"
  have "main 60 tokens g = main_loop s"
    by (simp add: main_def p main_body_def Let_def INITAL_SAMPLE_SIZE_def
        MAX_SAMPLE_SIZE_def readSamples_def readSamples_loop_eq l s_def)
  moreover have "fst (main_loop s) \<noteq> Inr 0"
    by (rule main_loop_short [where d = 57]) (simp_all add: s_def l)
  ultimately show ?thesis by simp
qed

text \<open>
  Claim C1 is not what the code does. With \<open>N = 60\<close> observations per group the
  process never ends with exit status 0, whatever the observations and the state of the
  Random Source: after the test at \<open>current = 60\<close> the loop asks the empty backlog
  for one more observation. On the input whose 120 observations are all \<open>10.0\<close>, the
  Hypothesis Tester runs 57 times, never rejects, and the process then aborts on the
  assertion of \<open>readSamples\<close>.
\<close>

theorem main_60_aborts:
  "fst (main 60 tokens g) \<noteq> Inr 0 \<and>
   fst (main 60 (\<lambda>i. FNum False 10) g) = Inl AssertionFailure \<and>
   tested (snd (main 60 (\<lambda>i. FNum False 10) g)) = 57"
  using main_60_not_exhausted [of tokens g] main_ten [of 60 g] by simp

text \<open>
  Claim C3 is not what the code does. With \<open>N = 61\<close> observations per group, all
  \<open>10.0\<close>, the Hypothesis Tester never rejects, the step after the test at
  \<open>current = 60\<close> appends a 61st observation to each Group, and the process ends with
  exit status 0 and both Groups one element past \<open>MAX_SAMPLE_SIZE\<close>.
\<close>

theorem main_61_overgrows:
  "MAX_SAMPLE_SIZE = 60 \<and>
   fst (main 61 (\<lambda>i. FNum False 10) g) = Inr 0 \<and>
   length (group_x (snd (main 61 (\<lambda>i. FNum False 10) g))) = 61 \<and>
   length (group_y (snd (main 61 (\<lambda>i. FNum False 10) g))) = 61"
  using main_ten [of 61 g] by (simp add: MAX_SAMPLE_SIZE_def)

text \<open>
  Claim C2. \<open>parseInput\<close> returns the two backlogs. If either of them holds fewer than
  \<open>MAX_SAMPLE_SIZE = 60\<close> observations, the process aborts on the assertion of \<open>main\<close>,
  and \<open>rejected\<close> has not been called. (Both backlogs hold \<open>numValues\<close> observations,
  so the assertion, which reads the reference backlog only, covers the candidate too.)
\<close>

theorem main_insufficient:
  assumes "parseInput numValues tokens = (reference, candidate)"
    and "length reference < MAX_SAMPLE_SIZE \<or> length candidate < MAX_SAMPLE_SIZE"
  shows "fst (main numValues tokens g) = Inl AssertionFailure \<and>
         tested (snd (main numValues tokens g)) = 0"
proof -
  have "length reference = numValues" "length candidate = numValues"
    using length_parseInput [of numValues tokens] by (simp_all add: assms(1))
  then have "length reference < MAX_SAMPLE_SIZE" using assms(2) by auto
  then show ?thesis
    by (simp add: main_def assms(1) main_body_def Let_def)
qed

theorem main_insufficient_witness:
  "parseInput 59 (\<lambda>i. FNum False 1) = (replicate 59 (FNum False 1), replicate 59 (FNum False 1)) \<and>
   (length (replicate 59 (FNum False 1)) < MAX_SAMPLE_SIZE \<or>
    length (replicate 59 (FNum False 1)) < MAX_SAMPLE_SIZE) \<and>
   fst (main 59 (\<lambda>i. FNum False 1) (\<lambda>i. i)) = Inl AssertionFailure \<and>
   tested (snd (main 59 (\<lambda>i. FNum False 1) (\<lambda>i. i))) = 0"
  using main_insufficient [of 59 "\<lambda>i. FNum False 1" "replicate 59 (FNum False 1)"
      "replicate 59 (FNum False 1)" "\<lambda>i. i"]
  by (simp add: parseInput_const MAX_SAMPLE_SIZE_def)

end
